theory Spec2Isabelle
  imports Main "HOL-Library.Word"
begin

unbundle bit_operations_syntax

section \<open>Data model\<close>

text \<open>
  Go's \<open>byte\<close> is an 8-bit word and \<open>uint64\<close> a 64-bit word; a slice is a list.
  A \<open>common.Hash\<close> is a byte array of length 32, kept here as the list of its bytes.
\<close>

type_synonym byte = "8 word"
type_synonym uint64 = "64 word"
type_synonym hash = "byte list"

text \<open>
  What a Go call can do besides returning: panic (the message is kept), or, for the
  traversals that follow hash references through the node store, use up the recursion
  fuel of the model. An \<open>error\<close> return value of the source is part of the returned
  tuple, as it is in Go.
\<close>

datatype 'a outcome = Returns 'a | Panics string | OutOfFuel

text \<open>
  \<open>nodeFlag{hash, dirty}\<close>: the cached hash of the node (\<open>nil\<close> is \<open>None\<close>) and
  the dirty bit. The fields carry a prefix, since \<open>hash\<close> and \<open>dirty\<close> also name a
  method and local variables of the source.
\<close>

record nodeFlag =
  flag_hash :: "byte list option"
  flag_dirty :: bool

text \<open>
  The \<open>node\<close> interface and its implementations, as \<open>trie.go\<close> and \<open>hasher.go\<close>
  use them: the nil interface value, \<open>valueNode\<close> and \<open>hashNode\<close> (byte slices),
  \<open>*shortNode{Key, Val, flags}\<close> and \<open>*fullNode{Children [17]node, flags}\<close>. The
  array of children is a list; it has length 17 for every value of the Go type, and the
  model checks an index against the length of the list, as Go checks it against the
  length of the array.
\<close>

datatype node =
    Nil
  | ValueNode "byte list"
  | HashNode "byte list"
  | ShortNode "byte list" node nodeFlag
  | FullNode "node list" nodeFlag

text \<open>\<open>MissingNodeError{Owner, NodeHash, Path}\<close>, the only error value of these files.\<close>

datatype error = MissingNodeError hash hash "byte list"

text \<open>
  The node store. \<open>database.go\<close> is not among the sources; the trie only calls
  \<open>t.db.node(common.BytesToHash(n))\<close>, which gives the decoded node stored under a
  hash or \<open>nil\<close>. A \<open>*Database\<close> is therefore its lookup function, from the
  bytes of the reference to the node (\<open>None\<close> is Go's \<open>nil\<close> result).
\<close>

type_synonym Database = "byte list \<Rightarrow> node option"

text \<open>
  The \<open>Trie\<close> struct. The field \<open>db\<close> is a pointer and may be nil. The tracer is
  nil in every trie these files build (its initialisation is commented out in
  \<open>newTrie\<close>), so the calls on it change nothing and the field is left out.
\<close>

record Trie =
  db :: "Database option"
  root :: node
  owner :: hash
  unhashed :: int

definition emptyRoot :: hash where
  "emptyRoot =
    [0x56, 0xe8, 0x1f, 0x17, 0x1b, 0xcc, 0x55, 0xa6, 0xff, 0x83, 0x45, 0xe6, 0x92, 0xc0, 0xf8, 0x6e,
     0x5b, 0x48, 0xe0, 0x1b, 0x99, 0x6c, 0xad, 0xc0, 0x01, 0x62, 0x2f, 0xb5, 0xe3, 0x63, 0xb4, 0x21]"

text \<open>\<open>common.Hash{}\<close>, the zero value of the array type.\<close>

definition zeroHash :: hash where
  "zeroHash = replicate 32 0"


section \<open>Constructing a trie\<close>

text \<open>
  \<open>resolveHash\<close>: the node stored under the reference, or a \<open>MissingNodeError\<close>
  carrying the owner, the hash and the path. The receiver's \<open>db\<close> is dereferenced,
  which panics when it is nil.
\<close>

definition resolveHash :: "Trie \<Rightarrow> byte list \<Rightarrow> byte list \<Rightarrow> (node \<times> error option) outcome" where
  "resolveHash t n prefix =
    (case db t of
       None \<Rightarrow> Panics ''invalid memory address or nil pointer dereference''
     | Some d \<Rightarrow>
         (case d n of
            Some nd \<Rightarrow> Returns (nd, None)
          | None \<Rightarrow> Returns (Nil, Some (MissingNodeError (owner t) n prefix))))"

text \<open>
  \<open>newTrie\<close> returns \<open>(*Trie, error)\<close>; the trie pointer is nil beside an error.
\<close>

definition newTrie :: "hash \<Rightarrow> hash \<Rightarrow> Database option \<Rightarrow> (Trie option \<times> error option) outcome" where
  "newTrie ownr rt d =
    (if d = None then Panics ''trie.New called without a database''
     else
       let trie = \<lparr>db = d, root = Nil, owner = ownr, unhashed = 0\<rparr> in
       if rt \<noteq> zeroHash \<and> rt \<noteq> emptyRoot then
         (case resolveHash trie rt [] of
            Returns (rootnode, err) \<Rightarrow>
              if err \<noteq> None then Returns (None, err)
              else Returns (Some (trie\<lparr>root := rootnode\<rparr>), None)
          | Panics s \<Rightarrow> Panics s
          | OutOfFuel \<Rightarrow> OutOfFuel)
       else Returns (Some trie, None))"

definition New :: "hash \<Rightarrow> hash \<Rightarrow> Database option \<Rightarrow> (Trie option \<times> error option) outcome" where
  "New ownr rt d = newTrie ownr rt d"


section \<open>RLP headers\<close>

text \<open>
  Sequential stores \<open>b[k] = v\<close> into a slice, in the order given. A store outside the
  slice panics, as Go's bounds check does.
\<close>

fun put :: "(nat \<times> byte) list \<Rightarrow> byte list \<Rightarrow> byte list outcome" where
  "put [] b = Returns b"
| "put ((k, v) # r) b =
     (if k < length b then put r (b[k := v]) else Panics ''index out of range'')"

text \<open>
  \<open>putint\<close> writes \<open>i\<close> to the beginning of \<open>b\<close> in big endian byte order, using
  the least number of bytes needed, and returns that number. \<open>byte(i >> k)\<close> is the
  truncating conversion \<open>ucast (drop_bit k i)\<close>. The result is the slice after the
  stores and the size.
\<close>

definition putint :: "byte list \<Rightarrow> uint64 \<Rightarrow> (byte list \<times> nat) outcome" where
  "putint b i =
    (let bytes =
       (if i < 2 ^ 8 then [ucast i]
        else if i < 2 ^ 16 then [ucast (drop_bit 8 i), ucast i]
        else if i < 2 ^ 24 then [ucast (drop_bit 16 i), ucast (drop_bit 8 i), ucast i]
        else if i < 2 ^ 32 then
          [ucast (drop_bit 24 i), ucast (drop_bit 16 i), ucast (drop_bit 8 i), ucast i]
        else if i < 2 ^ 40 then
          [ucast (drop_bit 32 i), ucast (drop_bit 24 i), ucast (drop_bit 16 i),
           ucast (drop_bit 8 i), ucast i]
        else if i < 2 ^ 48 then
          [ucast (drop_bit 40 i), ucast (drop_bit 32 i), ucast (drop_bit 24 i),
           ucast (drop_bit 16 i), ucast (drop_bit 8 i), ucast i]
        else if i < 2 ^ 56 then
          [ucast (drop_bit 48 i), ucast (drop_bit 40 i), ucast (drop_bit 32 i),
           ucast (drop_bit 24 i), ucast (drop_bit 16 i), ucast (drop_bit 8 i), ucast i]
        else
          [ucast (drop_bit 56 i), ucast (drop_bit 48 i), ucast (drop_bit 40 i),
           ucast (drop_bit 32 i), ucast (drop_bit 24 i), ucast (drop_bit 16 i),
           ucast (drop_bit 8 i), ucast i])
     in case put (zip [0..<length bytes] bytes) b of
          Returns b' \<Rightarrow> Returns (b', length bytes)
        | Panics s \<Rightarrow> Panics s
        | OutOfFuel \<Rightarrow> OutOfFuel)"

text \<open>
  \<open>puthead\<close> writes a list or string header to \<open>buf\<close> and returns its length.
  \<open>buf[1:]\<close> shares the array of \<open>buf\<close>: what \<open>putint\<close> stores there is stored
  in \<open>buf\<close> from index 1 on. Slicing an empty \<open>buf\<close> at 1 panics.
\<close>

definition puthead :: "byte list \<Rightarrow> byte \<Rightarrow> byte \<Rightarrow> uint64 \<Rightarrow> (byte list \<times> nat) outcome" where
  "puthead buf smalltag largetag sz =
    (if sz < 56 then
       (case put [(0, smalltag + ucast sz)] buf of
          Returns buf' \<Rightarrow> Returns (buf', 1)
        | Panics s \<Rightarrow> Panics s
        | OutOfFuel \<Rightarrow> OutOfFuel)
     else if length buf < 1 then Panics ''slice bounds out of range''
     else
       (case putint (drop 1 buf) sz of
          Returns (tl', sizesize) \<Rightarrow>
            (case put [(0, largetag + of_nat sizesize)] (take 1 buf @ tl') of
               Returns buf' \<Rightarrow> Returns (buf', sizesize + 1)
             | Panics s \<Rightarrow> Panics s
             | OutOfFuel \<Rightarrow> OutOfFuel)
        | Panics s \<Rightarrow> Panics s
        | OutOfFuel \<Rightarrow> OutOfFuel))"

text \<open>\<open>listhead\<close> and its \<open>encode\<close>, which returns \<open>buf[:puthead(...)]\<close>.\<close>

record listhead =
  head_offset :: int
  head_size :: int

definition listhead_encode :: "listhead \<Rightarrow> byte list \<Rightarrow> byte list outcome" where
  "listhead_encode head buf =
    (case puthead buf 0xC0 0xF7 (word_of_int (head_size head)) of
       Returns (buf', n) \<Rightarrow> Returns (take n buf')
     | Panics s \<Rightarrow> Panics s
     | OutOfFuel \<Rightarrow> OutOfFuel)"

text \<open>
  The header as the specification words it: the size in big endian with no leading zero
  byte, after one byte that is \<open>smalltag + size\<close> up to 55 and \<open>largetag\<close> plus the
  number of size bytes beyond.
\<close>

fun big_endian :: "nat \<Rightarrow> byte list" where
  "big_endian n = (if n = 0 then [] else big_endian (n div 256) @ [of_nat (n mod 256)])"

definition spec_header :: "byte \<Rightarrow> byte \<Rightarrow> nat \<Rightarrow> byte list" where
  "spec_header smalltag largetag n =
    (if n \<le> 55 then [smalltag + of_nat n]
     else (largetag + of_nat (length (big_endian n))) # big_endian n)"

text \<open>The bytes of \<open>n\<close> from position \<open>k - 1\<close> down to 0; a proof device for \<open>big_endian\<close>.\<close>

fun be_n :: "nat \<Rightarrow> nat \<Rightarrow> byte list" where
  "be_n 0 n = []"
| "be_n (Suc k) n = of_nat (n div 256 ^ k) # be_n k n"

section \<open>Key encodings\<close>

text \<open>\<open>hasTerm\<close>: whether a hex key has the terminator flag.\<close>

definition hasTerm :: "byte list \<Rightarrow> bool" where
  "hasTerm s = (length s > 0 \<and> s ! (length s - 1) = 16)"

text \<open>
  \<open>keybytesToHex\<close>: two nibbles \<open>b / 16\<close> and \<open>b % 16\<close> for each byte of the key,
  then the terminator 16.
\<close>

definition keybytesToHex :: "byte list \<Rightarrow> byte list" where
  "keybytesToHex str = concat (map (\<lambda>b. [b div 16, b mod 16]) str) @ [16]"

text \<open>
  The loop of \<open>decodeNibbles\<close>, from the indices \<open>bi\<close> and \<open>ni\<close> on:
  \<open>bytes[bi] = nibbles[ni]<<4 | nibbles[ni+1]\<close>. Reading or storing outside a slice
  panics.
\<close>

function decodeNibbles_loop :: "byte list \<Rightarrow> byte list \<Rightarrow> nat \<Rightarrow> nat \<Rightarrow> byte list outcome" where
  "decodeNibbles_loop nibbles bytes bi ni =
    (if ni < length nibbles then
       (if ni + 1 < length nibbles \<and> bi < length bytes then
          decodeNibbles_loop nibbles
            (bytes[bi := push_bit 4 (nibbles ! ni) OR nibbles ! (ni + 1)]) (bi + 1) (ni + 2)
        else Panics ''index out of range'')
     else Returns bytes)"
  by pat_completeness auto
termination
  by (relation "measure (\<lambda>(nibbles, bytes, bi, ni). length nibbles - ni)") auto

definition decodeNibbles :: "byte list \<Rightarrow> byte list \<Rightarrow> byte list outcome" where
  "decodeNibbles nibbles bytes = decodeNibbles_loop nibbles bytes 0 0"

text \<open>
  \<open>hexToCompact\<close>. \<open>buf[1:]\<close> shares the array of \<open>buf\<close>, so the bytes that
  \<open>decodeNibbles\<close> stores follow the flag byte in the result.
\<close>

definition hexToCompact :: "byte list \<Rightarrow> byte list outcome" where
  "hexToCompact hex0 =
    (let (terminator, hex1) =
           (if hasTerm hex0 then (1, take (length hex0 - 1) hex0) else (0 :: byte, hex0));
         buf = replicate (length hex1 div 2 + 1) (0 :: byte);
         buf = buf[0 := push_bit 5 terminator];
         (buf, hex2) =
           (if length hex1 AND 1 = 1
            then (buf[0 := (buf ! 0 OR push_bit 4 1) OR hex1 ! 0], drop 1 hex1)
            else (buf, hex1))
     in case decodeNibbles hex2 (drop 1 buf) of
          Returns tl' \<Rightarrow> Returns (take 1 buf @ tl')
        | Panics s \<Rightarrow> Panics s
        | OutOfFuel \<Rightarrow> OutOfFuel)"

text \<open>
  The loop of \<open>hexToCompactInPlace\<close>, which reads and stores in the same slice:
  \<open>hex[bi] = hex[ni]<<4 | hex[ni+1]\<close> while \<open>ni < hexLen\<close>.
\<close>

function hexToCompactInPlace_loop :: "byte list \<Rightarrow> nat \<Rightarrow> nat \<Rightarrow> nat \<Rightarrow> byte list outcome" where
  "hexToCompactInPlace_loop hex hexLen bi ni =
    (if ni < hexLen then
       (if ni + 1 < length hex \<and> bi < length hex then
          hexToCompactInPlace_loop
            (hex[bi := push_bit 4 (hex ! ni) OR hex ! (ni + 1)]) hexLen (bi + 1) (ni + 2)
        else Panics ''index out of range'')
     else Returns hex)"
  by pat_completeness auto
termination
  by (relation "measure (\<lambda>(hex, hexLen, bi, ni). hexLen - ni)") auto

text \<open>
  \<open>hexToCompactInPlace\<close> returns the length of the compact key; the slice after the
  call is part of the result here. The last store, \<open>hex[0] = firstByte\<close>, panics on an
  empty slice.
\<close>

definition hexToCompactInPlace :: "byte list \<Rightarrow> (byte list \<times> nat) outcome" where
  "hexToCompactInPlace hex =
    (let (firstByte, hexLen) =
           (if length hex > 0 \<and> hex ! (length hex - 1) = 16
            then (push_bit 5 1, length hex - 1) else (0 :: byte, length hex));
         binLen = hexLen div 2 + 1;
         (firstByte, ni) =
           (if hexLen AND 1 = 1
            then ((firstByte OR push_bit 4 1) OR hex ! 0, 1) else (firstByte, 0 :: nat))
     in case hexToCompactInPlace_loop hex hexLen 1 ni of
          Returns hex' \<Rightarrow>
            (if 0 < length hex' then Returns (hex'[0 := firstByte], binLen)
             else Panics ''index out of range'')
        | Panics s \<Rightarrow> Panics s
        | OutOfFuel \<Rightarrow> OutOfFuel)"

text \<open>
  \<open>compactToHex\<close>. \<open>chop\<close> is the byte \<open>2 - base[0]&1\<close>; the result is
  \<open>base[chop:]\<close>.
\<close>

definition compactToHex :: "byte list \<Rightarrow> byte list" where
  "compactToHex compact =
    (if length compact = 0 then compact
     else
       let base = keybytesToHex compact;
           base = (if base ! 0 < 2 then take (length base - 1) base else base);
           chop = 2 - (base ! 0 AND 1)
       in drop (unat chop) base)"


text \<open>
  A hex key as the specification describes it: nibbles below 16, with an optional
  terminator 16 as the last byte.
\<close>

definition valid_hex :: "byte list \<Rightarrow> bool" where
  "valid_hex h = ((\<forall>x \<in> set (butlast h). x < 16) \<and> (h \<noteq> [] \<longrightarrow> last h \<le> 16))"

text \<open>Two nibbles in a byte, pair by pair; a proof device for the two packing loops.\<close>

fun pack :: "byte list \<Rightarrow> byte list" where
  "pack (a # b # r) = (push_bit 4 a OR b) # pack r"
| "pack _ = []"

section \<open>Trie operations\<close>

text \<open>
  The traversals below follow hash references through the node store, so their recursion
  is not bounded by the node at hand. Each takes a fuel argument first, which every call
  of the source uses up by one; \<open>OutOfFuel\<close> is the result of a call that would need
  more. A byte slice that is \<open>nil\<close> is the empty list (Go's \<open>len\<close> and
  \<open>bytes.Equal\<close> do not tell them apart).
\<close>










section \<open>Node encoding\<close>

text \<open>
  Modelled from the spec: the \<open>encode\<close> method of the nodes (\<open>node_enc.go\<close>) and the
  string and list encoders of the RLP buffer are not among the sources. Sections 4.1 and
  4.4 of the specification give the encoding: a single byte up to \<open>0x7f\<close> is itself;
  any other byte string is a header with the tags \<open>0x80\<close> and \<open>0xB7\<close> and then the
  bytes; a list is a header with the tags \<open>0xC0\<close> and \<open>0xF7\<close> and then the encodings
  of its elements. A value node and a hash node are byte strings, a short node is the
  list of its key and its child, a full node the list of its 17 children, and nil is the
  empty string. The hasher hands over nodes whose keys are compact already and whose
  children are hashed already.
\<close>

definition rlp_string :: "byte list \<Rightarrow> byte list" where
  "rlp_string bs =
    (if length bs = 1 \<and> hd bs \<le> 0x7f then bs else spec_header 0x80 0xB7 (length bs) @ bs)"

definition rlp_list :: "byte list \<Rightarrow> byte list" where
  "rlp_list payload = spec_header 0xC0 0xF7 (length payload) @ payload"

fun encode :: "node \<Rightarrow> byte list" where
  "encode Nil = [0x80]"
| "encode (ValueNode v) = rlp_string v"
| "encode (HashNode h) = rlp_string h"
| "encode (ShortNode key val flags) = rlp_list (rlp_string key @ encode val)"
| "encode (FullNode children flags) = rlp_list (concat (map encode children))"

section \<open>Hasher\<close>

text \<open>
  The Keccak-256 state of the \<open>crypto\<close> library is outside these sources. It is a
  parameter: the function from the data written to the state to the stream of bytes
  that can be read from it. The scratch buffers of the hasher hold no information
  between two calls and are left out.
\<close>

type_synonym KeccakState = "byte list \<Rightarrow> nat \<Rightarrow> byte"

record hasher =
  sha :: KeccakState
  parallel :: bool

text \<open>\<open>newHasher\<close> takes a hasher from the pool, whose \<open>sha\<close> is Keccak-256.\<close>

definition newHasher :: "KeccakState \<Rightarrow> bool \<Rightarrow> hasher" where
  "newHasher keccak par = \<lparr>sha = keccak, parallel = par\<rparr>"

text \<open>\<open>hashData\<close> allocates a hash node of 32 bytes and reads it from the state.\<close>

definition hashData :: "hasher \<Rightarrow> byte list \<Rightarrow> node" where
  "hashData h data = HashNode (map (sha h data) [0..<32])"

definition shortnodeToHash :: "hasher \<Rightarrow> node \<Rightarrow> bool \<Rightarrow> node" where
  "shortnodeToHash h n force =
    (let enc = encode n in
     if length enc < 32 \<and> \<not> force then n else hashData h enc)"

definition fullnodeToHash :: "hasher \<Rightarrow> node \<Rightarrow> bool \<Rightarrow> node" where
  "fullnodeToHash h n force =
    (let enc = encode n in
     if length enc < 32 \<and> \<not> force then n else hashData h enc)"

text \<open>The assignment \<open>cached.flags.hash = \<dots>\<close> on a short or full node.\<close>

fun set_flags_hash :: "node \<Rightarrow> byte list option \<Rightarrow> node" where
  "set_flags_hash (ShortNode key val flags) hn = ShortNode key val (flags\<lparr>flag_hash := hn\<rparr>)"
| "set_flags_hash (FullNode children flags) hn = FullNode children (flags\<lparr>flag_hash := hn\<rparr>)"
| "set_flags_hash n hn = n"

text \<open>The hash node behind \<open>hn, ok := hashed.(hashNode)\<close>, or nil.\<close>

fun as_hashNode :: "node \<Rightarrow> byte list option" where
  "as_hashNode (HashNode hn) = Some hn"
| "as_hashNode n = None"

text \<open>
  \<open>hash\<close> returns \<open>(hashed, cached)\<close>. A \<open>*shortNode\<close> or \<open>*fullNode\<close> argument is
  given by its fields. \<open>n.cache()\<close> is the cached hash of a short or full node and nil
  for a value or hash node; on the nil interface it is a nil dereference. The loop over
  the first 16 children is \<open>hashChildren_loop\<close>; with \<open>parallel\<close> set each child is
  hashed by a hasher of its own from the pool, into its own slot, so the slots are
  filled as by the sequential loop.
\<close>

function hash :: "hasher \<Rightarrow> node \<Rightarrow> bool \<Rightarrow> (node \<times> node) outcome"
  and hashShortNodeChildren :: "hasher \<Rightarrow> byte list \<Rightarrow> node \<Rightarrow> nodeFlag \<Rightarrow> (node \<times> node) outcome"
  and hashFullNodeChildren :: "hasher \<Rightarrow> node list \<Rightarrow> nodeFlag \<Rightarrow> (node \<times> node) outcome"
  and hashChildren_loop :: "hasher \<Rightarrow> node list \<Rightarrow> node list \<Rightarrow> node list \<Rightarrow> nat
    \<Rightarrow> (node list \<times> node list) outcome"
where
  "hash h Nil force = Panics ''invalid memory address or nil pointer dereference''"
| "hash h (ValueNode v) force = Returns (ValueNode v, ValueNode v)"
| "hash h (HashNode hn) force = Returns (HashNode hn, HashNode hn)"
| "hash h (ShortNode key val flags) force =
    (if flag_hash flags \<noteq> None
     then Returns (HashNode (the (flag_hash flags)), ShortNode key val flags)
     else
       (case hashShortNodeChildren h key val flags of
          Returns (collapsed, cached) \<Rightarrow>
            let hashed = shortnodeToHash h collapsed force
            in Returns (hashed, set_flags_hash cached (as_hashNode hashed))
        | Panics s \<Rightarrow> Panics s
        | OutOfFuel \<Rightarrow> OutOfFuel))"
| "hash h (FullNode children flags) force =
    (if flag_hash flags \<noteq> None
     then Returns (HashNode (the (flag_hash flags)), FullNode children flags)
     else
       (case hashFullNodeChildren h children flags of
          Returns (collapsed, cached) \<Rightarrow>
            let hashed = fullnodeToHash h collapsed force
            in Returns (hashed, set_flags_hash cached (as_hashNode hashed))
        | Panics s \<Rightarrow> Panics s
        | OutOfFuel \<Rightarrow> OutOfFuel))"
| "hashShortNodeChildren h key val flags =
    (case hexToCompact key of
       Returns ckey \<Rightarrow>
         (if (case val of FullNode _ _ \<Rightarrow> True | ShortNode _ _ _ \<Rightarrow> True | _ \<Rightarrow> False) then
            (case hash h val False of
               Returns (cval, dval) \<Rightarrow>
                 Returns (ShortNode ckey cval flags, ShortNode key dval flags)
             | Panics s \<Rightarrow> Panics s
             | OutOfFuel \<Rightarrow> OutOfFuel)
          else Returns (ShortNode ckey val flags, ShortNode key val flags))
     | Panics s \<Rightarrow> Panics s
     | OutOfFuel \<Rightarrow> OutOfFuel)"
| "hashFullNodeChildren h children flags =
    (case (if parallel h
           then hashChildren_loop (newHasher (sha h) False) children children children 0
           else hashChildren_loop h children children children 0) of
       Returns (collapsed, cached) \<Rightarrow> Returns (FullNode collapsed flags, FullNode cached flags)
     | Panics s \<Rightarrow> Panics s
     | OutOfFuel \<Rightarrow> OutOfFuel)"
| "hashChildren_loop h children collapsed cached i =
    (if i < 16 then
       (if \<not> i < length children then Panics ''index out of range''
        else if children ! i \<noteq> Nil then
          (case hash h (children ! i) False of
             Returns (c, d) \<Rightarrow>
               hashChildren_loop h children (collapsed[i := c]) (cached[i := d]) (i + 1)
           | Panics s \<Rightarrow> Panics s
           | OutOfFuel \<Rightarrow> OutOfFuel)
        else hashChildren_loop h children (collapsed[i := ValueNode []]) cached (i + 1))
     else Returns (collapsed, cached))"
  by pat_completeness auto
termination
  apply (relation "inv_image (less_than <*lex*> less_than)
    (\<lambda>x. case x of
        Inl (Inl (h, n, force)) \<Rightarrow> (2 * size n + 1, 0)
      | Inl (Inr (h, key, val, flags)) \<Rightarrow> (2 * size val + 2, 0)
      | Inr (Inl (h, children, flags)) \<Rightarrow> (2 * size_list size children + 2, 0)
      | Inr (Inr (h, children, collapsed, cached, i)) \<Rightarrow> (2 * size_list size children + 1, 16 - i))")
  subgoal by (intro wf_inv_image wf_lex_prod wf_less_than)
  subgoal by simp
  subgoal by simp
  subgoal by simp
  subgoal by simp
  subgoal by simp
  subgoal for h children collapsed cached i
    using size_list_estimation' [OF nth_mem, of i children "size (children ! i)" size]
    by (simp add: le_eq_less_or_eq)
  subgoal premises p using p(1) by simp
  subgoal by simp
  done

text \<open>
  Modelled from the spec: \<open>common.BytesToHash\<close> is not among the sources; a hash is
  32 bytes, so longer input keeps its last 32 bytes and shorter input is padded with
  zero bytes on the left.
\<close>

definition BytesToHash :: "byte list \<Rightarrow> hash" where
  "BytesToHash b =
    (let b' = (if length b > 32 then drop (length b - 32) b else b)
     in replicate (32 - length b') 0 @ b')"

text \<open>
  \<open>hashRoot\<close> returns \<open>(hashed, cached, err)\<close> with a nil error, and resets the
  counter \<open>unhashed\<close>; the trie after the call is the last component here.
\<close>

definition hashRoot :: "KeccakState \<Rightarrow> Trie \<Rightarrow> (node \<times> node \<times> error option \<times> Trie) outcome" where
  "hashRoot keccak t =
    (if root t = Nil then Returns (HashNode emptyRoot, Nil, None, t)
     else
       let h = newHasher keccak (unhashed t \<ge> 100) in
       (case hash h (root t) True of
          Returns (hashed, cached) \<Rightarrow> Returns (hashed, cached, None, t\<lparr>unhashed := 0\<rparr>)
        | Panics s \<Rightarrow> Panics s
        | OutOfFuel \<Rightarrow> OutOfFuel))"

text \<open>
  \<open>Hash\<close> stores the cached root and returns the hash; the type assertion
  \<open>hash.(hashNode)\<close> panics on any other node.
\<close>

definition Hash :: "KeccakState \<Rightarrow> Trie \<Rightarrow> (hash \<times> Trie) outcome" where
  "Hash keccak t =
    (case hashRoot keccak t of
       Returns (hashed, cached, _, t') \<Rightarrow>
         (case hashed of
            HashNode hn \<Rightarrow> Returns (BytesToHash hn, t'\<lparr>root := cached\<rparr>)
          | _ \<Rightarrow> Panics ''interface conversion'')
     | Panics s \<Rightarrow> Panics s
     | OutOfFuel \<Rightarrow> OutOfFuel)"


section \<open>Structural invariants\<close>

text \<open>
  The node store a trie reads: the lookup function of its database, and the empty store
  when the database pointer is nil.
\<close>

definition store :: "Trie \<Rightarrow> Database" where
  "store t = (case db t of Some d \<Rightarrow> d | None \<Rightarrow> (\<lambda>h. None))"




text \<open>
  Keys in hex form: \<open>is_nibbles\<close> holds when all bytes are below 16; a
  \<open>termkey\<close> is a sequence of nibbles followed by the terminator 16, as
  \<open>keybytesToHex\<close> produces and as every suffix of such a key that still holds the
  terminator is.
\<close>

definition is_nibbles :: "byte list \<Rightarrow> bool" where
  "is_nibbles k = (\<forall>x \<in> set k. x < 16)"




text \<open>
  Proof devices: the slots of a full node that are in use; what a slot of a well-formed
  full node may hold; and the part of \<open>delete\<close> that runs once a child of a full
  node has become nil.
\<close>

definition used :: "node list \<Rightarrow> nat set" where
  "used cs = {i. i < length cs \<and> cs ! i \<noteq> Nil}"



section \<open>Results\<close>

text \<open>
  C10. For every owner and every root hash, the zero hash and the empty root included,
  \<open>New\<close> called with a nil database panics with the message
  "trie.New called without a database"; it does not return a trie or an error.
\<close>

theorem New_nil_database_panics:
  "New ownr rt None = Panics ''trie.New called without a database''"
  by (simp add: New_def newTrie_def)

subsection \<open>RLP headers\<close>

declare big_endian.simps [simp del]

lemma put_zip_aux:
  "k + length bs \<le> length b \<Longrightarrow>
   put (zip [k..<k + length bs] bs) b = Returns (take k b @ bs @ drop (k + length bs) b)"
proof (induction bs arbitrary: k b)
  case Nil
  then show ?case by simp
next
  case (Cons x xs)
  have up: "[k..<k + length (x # xs)] = k # [Suc k..<Suc k + length xs]"
    by (subst upt_rec) simp
  have "put (zip [k..<k + length (x # xs)] (x # xs)) b
        = put (zip [Suc k..<Suc k + length xs] xs) (b[k := x])"
    unfolding up using Cons.prems by simp
  also have "\<dots> = Returns (take (Suc k) (b[k := x]) @ xs @ drop (Suc k + length xs) (b[k := x]))"
    using Cons.prems by (intro Cons.IH) simp
  also have "take (Suc k) (b[k := x]) = take k b @ [x]"
    using Cons.prems by (simp add: take_Suc_conv_app_nth)
  finally show ?case by simp
qed

lemma put_zip:
  "length bs \<le> length b \<Longrightarrow> put (zip [0..<length bs] bs) b = Returns (bs @ drop (length bs) b)"
  using put_zip_aux [of 0 bs b] by simp

lemma ucast_byte: "(ucast (w :: uint64) :: byte) = of_nat (unat w)"
  by simp

lemma ucast_drop_byte: "(ucast (drop_bit k (w :: uint64)) :: byte) = of_nat (unat w div 2 ^ k)"
  by (simp only: ucast_byte unat_drop_bit_eq) (simp add: drop_bit_eq_div)

lemma of_nat_mod_byte: "(of_nat (n mod 256) :: byte) = of_nat n"
  by (simp add: word_unat_eq_iff unat_of_nat)

lemma be_step: "n \<noteq> 0 \<Longrightarrow> big_endian n = big_endian (n div 256) @ [of_nat n]"
  by (subst big_endian.simps) (simp add: of_nat_mod_byte)

lemma be_zero: "big_endian 0 = []"
  by (subst big_endian.simps) simp

lemma be_n_snoc: "be_n (Suc k) n = be_n k (n div 256) @ [of_nat n]"
  by (induction k) (simp_all add: div_mult2_eq)

lemma big_endian_be_n: "256 ^ k \<le> n \<Longrightarrow> n < 256 ^ Suc k \<Longrightarrow> big_endian n = be_n (Suc k) n"
proof (induction k arbitrary: n)
  case 0
  then show ?case by (simp add: be_step be_zero)
next
  case (Suc k)
  have "256 ^ k \<le> n div 256" using Suc.prems(1) by (simp add: less_eq_div_iff_mult_less_eq)
  moreover have "n div 256 < 256 ^ Suc k" using Suc.prems(2) by (simp add: less_mult_imp_div_less)
  ultimately have ih: "big_endian (n div 256) = be_n (Suc k) (n div 256)" by (rule Suc.IH)
  have "0 < (256::nat) ^ Suc k" by simp
  then have "n \<noteq> 0" using Suc.prems(1) by linarith
  then have "big_endian n = big_endian (n div 256) @ [of_nat n]" by (rule be_step)
  then show ?case unfolding ih be_n_snoc [of "Suc k" n] .
qed

lemma pow256: "(256::nat) ^ n = 2 ^ (8 * n)"
  by (simp add: power_mult)

lemma be_n_word:
  "be_n (Suc k) (unat (w :: uint64)) = ucast (drop_bit (8 * k) w) # be_n k (unat w)"
  by (simp add: ucast_drop_byte pow256)

lemma putint_range:
  assumes "2 ^ (8 * k) \<le> unat i" "unat i < 2 ^ (8 * Suc k)"
  shows "big_endian (unat i) = be_n (Suc k) (unat i)"
  using assms big_endian_be_n [of k "unat i"] unfolding pow256 by blast

lemma putint_eq:
  assumes "length bs \<le> length b"
    and "(if i < 2 ^ 8 then [ucast i]
        else if i < 2 ^ 16 then [ucast (drop_bit 8 i), ucast i]
        else if i < 2 ^ 24 then [ucast (drop_bit 16 i), ucast (drop_bit 8 i), ucast i]
        else if i < 2 ^ 32 then
          [ucast (drop_bit 24 i), ucast (drop_bit 16 i), ucast (drop_bit 8 i), ucast i]
        else if i < 2 ^ 40 then
          [ucast (drop_bit 32 i), ucast (drop_bit 24 i), ucast (drop_bit 16 i),
           ucast (drop_bit 8 i), ucast i]
        else if i < 2 ^ 48 then
          [ucast (drop_bit 40 i), ucast (drop_bit 32 i), ucast (drop_bit 24 i),
           ucast (drop_bit 16 i), ucast (drop_bit 8 i), ucast i]
        else if i < 2 ^ 56 then
          [ucast (drop_bit 48 i), ucast (drop_bit 40 i), ucast (drop_bit 32 i),
           ucast (drop_bit 24 i), ucast (drop_bit 16 i), ucast (drop_bit 8 i), ucast i]
        else
          [ucast (drop_bit 56 i), ucast (drop_bit 48 i), ucast (drop_bit 40 i),
           ucast (drop_bit 32 i), ucast (drop_bit 24 i), ucast (drop_bit 16 i),
           ucast (drop_bit 8 i), ucast (i :: uint64)]) = bs"
  shows "putint b i = Returns (bs @ drop (length bs) b, length bs)"
  unfolding putint_def assms(2) Let_def put_zip [OF assms(1)] by simp

lemma putint_be:
  assumes "8 \<le> length b" "i \<noteq> 0"
  shows "putint b i = Returns (big_endian (unat i) @ drop (length (big_endian (unat i))) b,
                               length (big_endian (unat i)))"
proof -
  have u: "unat i < 2 ^ 64" using unsigned_less [of i] by simp
  have nz: "1 \<le> unat i" using assms(2) by (simp add: unat_gt_0 Suc_le_eq)
  consider "i < 2 ^ 8" | "\<not> i < 2 ^ 8" "i < 2 ^ 16" | "\<not> i < 2 ^ 16" "i < 2 ^ 24"
    | "\<not> i < 2 ^ 24" "i < 2 ^ 32" | "\<not> i < 2 ^ 32" "i < 2 ^ 40" | "\<not> i < 2 ^ 40" "i < 2 ^ 48"
    | "\<not> i < 2 ^ 48" "i < 2 ^ 56" | "\<not> i < 2 ^ 56" by blast
  then show ?thesis
  proof cases
    case 1
    then have "big_endian (unat i) = be_n (Suc 0) (unat i)"
      using nz by (intro putint_range) (simp_all add: word_less_nat_alt)
    then have be: "big_endian (unat i) = [ucast i]"
      by (simp only: be_n_word be_n.simps(1)) simp
    show ?thesis unfolding be using 1 assms(1) by (intro putint_eq) (simp_all add: word_less_nat_alt)
  next
    case 2
    then have "big_endian (unat i) = be_n (Suc (Suc 0)) (unat i)"
      by (intro putint_range) (simp_all add: word_less_nat_alt)
    then have be: "big_endian (unat i) = [ucast (drop_bit 8 i), ucast i]"
      by (simp only: be_n_word be_n.simps(1)) simp
    show ?thesis unfolding be using 2 assms(1) by (intro putint_eq) (simp_all add: word_less_nat_alt)
  next
    case 3
    then have "big_endian (unat i) = be_n (Suc (Suc (Suc 0))) (unat i)"
      by (intro putint_range) (simp_all add: word_less_nat_alt)
    then have be: "big_endian (unat i) = [ucast (drop_bit 16 i), ucast (drop_bit 8 i), ucast i]"
      by (simp only: be_n_word be_n.simps(1)) simp
    show ?thesis unfolding be using 3 assms(1) by (intro putint_eq) (simp_all add: word_less_nat_alt)
  next
    case 4
    then have "big_endian (unat i) = be_n (Suc (Suc (Suc (Suc 0)))) (unat i)"
      by (intro putint_range) (simp_all add: word_less_nat_alt)
    then have be: "big_endian (unat i) =
        [ucast (drop_bit 24 i), ucast (drop_bit 16 i), ucast (drop_bit 8 i), ucast i]"
      by (simp only: be_n_word be_n.simps(1)) simp
    show ?thesis unfolding be using 4 assms(1) by (intro putint_eq) (simp_all add: word_less_nat_alt)
  next
    case 5
    then have "big_endian (unat i) = be_n (Suc (Suc (Suc (Suc (Suc 0))))) (unat i)"
      by (intro putint_range) (simp_all add: word_less_nat_alt)
    then have be: "big_endian (unat i) =
        [ucast (drop_bit 32 i), ucast (drop_bit 24 i), ucast (drop_bit 16 i),
         ucast (drop_bit 8 i), ucast i]"
      by (simp only: be_n_word be_n.simps(1)) simp
    show ?thesis unfolding be using 5 assms(1) by (intro putint_eq) (simp_all add: word_less_nat_alt)
  next
    case 6
    then have "big_endian (unat i) = be_n (Suc (Suc (Suc (Suc (Suc (Suc 0)))))) (unat i)"
      by (intro putint_range) (simp_all add: word_less_nat_alt)
    then have be: "big_endian (unat i) =
        [ucast (drop_bit 40 i), ucast (drop_bit 32 i), ucast (drop_bit 24 i),
         ucast (drop_bit 16 i), ucast (drop_bit 8 i), ucast i]"
      by (simp only: be_n_word be_n.simps(1)) simp
    show ?thesis unfolding be using 6 assms(1) by (intro putint_eq) (simp_all add: word_less_nat_alt)
  next
    case 7
    then have "big_endian (unat i) = be_n (Suc (Suc (Suc (Suc (Suc (Suc (Suc 0))))))) (unat i)"
      by (intro putint_range) (simp_all add: word_less_nat_alt)
    then have be: "big_endian (unat i) =
        [ucast (drop_bit 48 i), ucast (drop_bit 40 i), ucast (drop_bit 32 i),
         ucast (drop_bit 24 i), ucast (drop_bit 16 i), ucast (drop_bit 8 i), ucast i]"
      by (simp only: be_n_word be_n.simps(1)) simp
    show ?thesis unfolding be using 7 assms(1) by (intro putint_eq) (simp_all add: word_less_nat_alt)
  next
    case 8
    then have "big_endian (unat i) = be_n (Suc (Suc (Suc (Suc (Suc (Suc (Suc (Suc 0)))))))) (unat i)"
      using u by (intro putint_range) (simp_all add: word_less_nat_alt)
    then have be: "big_endian (unat i) =
        [ucast (drop_bit 56 i), ucast (drop_bit 48 i), ucast (drop_bit 40 i),
         ucast (drop_bit 32 i), ucast (drop_bit 24 i), ucast (drop_bit 16 i),
         ucast (drop_bit 8 i), ucast i]"
      by (simp only: be_n_word be_n.simps(1)) simp
    show ?thesis unfolding be using 8 assms(1) by (intro putint_eq) (simp_all add: word_less_nat_alt)
  qed
qed

lemma big_endian_length: "n < 256 ^ k \<Longrightarrow> length (big_endian n) \<le> k"
proof (induction k arbitrary: n)
  case 0
  then show ?case by (simp add: be_zero)
next
  case (Suc k)
  show ?case
  proof (cases "n = 0")
    case True
    then show ?thesis by (simp add: be_zero)
  next
    case False
    have "n div 256 < 256 ^ k" using Suc.prems by (simp add: less_mult_imp_div_less)
    then have "length (big_endian (n div 256)) \<le> k" by (rule Suc.IH)
    then show ?thesis using False by (simp add: be_step)
  qed
qed

lemma spec_header_length_le: "n < 2 ^ 64 \<Longrightarrow> length (big_endian n) \<le> 8"
  using big_endian_length [of n 8] by simp

lemma big_endian_no_leading_zero: "big_endian n \<noteq> [] \<Longrightarrow> hd (big_endian n) \<noteq> 0"
proof (induction n rule: less_induct)
  case (less n)
  then have nz: "n \<noteq> 0" by (metis be_zero)
  show ?case
  proof (cases "n < 256")
    case True
    then have "big_endian n = [of_nat n]" using nz by (simp add: be_step be_zero)
    moreover have "(of_nat n :: byte) \<noteq> 0"
      using True nz by (simp add: word_unat_eq_iff unat_of_nat)
    ultimately show ?thesis by simp
  next
    case False
    then have d: "n div 256 \<noteq> 0" by simp
    then have ne: "big_endian (n div 256) \<noteq> []" by (simp add: be_step [of "n div 256"])
    have "n div 256 < n" using nz by simp
    then have "hd (big_endian (n div 256)) \<noteq> 0" using ne by (rule less.IH)
    then show ?thesis using nz ne by (simp add: be_step [of n])
  qed
qed

lemma big_endian_value: "foldl (\<lambda>a b. 256 * a + unat b) 0 (big_endian n) = n"
proof (induction n rule: less_induct)
  case (less n)
  show ?case
  proof (cases "n = 0")
    case True
    then show ?thesis by (simp add: be_zero)
  next
    case False
    then have "n div 256 < n" by simp
    then have "foldl (\<lambda>a b. 256 * a + unat b) 0 (big_endian (n div 256)) = n div 256"
      by (rule less.IH)
    then show ?thesis using False by (simp add: be_step unat_of_nat)
  qed
qed

text \<open>
  C8. For every payload size, \<open>puthead\<close> on a buffer of at least 9 bytes writes the
  header of the specification at the front of the buffer and returns its length: the
  single byte \<open>smalltag + size\<close> when the size is at most 55, and otherwise the byte
  \<open>largetag + len\<close> followed by the \<open>len\<close> bytes of the size in big endian, with no
  leading zero byte. The rest of the buffer is unchanged.
\<close>

theorem puthead_writes_spec_header:
  assumes "9 \<le> length buf"
  shows "puthead buf smalltag largetag sz =
    Returns (spec_header smalltag largetag (unat sz)
               @ drop (length (spec_header smalltag largetag (unat sz))) buf,
             length (spec_header smalltag largetag (unat sz)))"
proof (cases "sz < 56")
  case True
  then have "unat sz \<le> 55" by (simp add: word_less_nat_alt)
  moreover have ne: "buf \<noteq> []" using assms by auto
  then have "buf[0 := smalltag + ucast sz] = (smalltag + ucast sz) # drop 1 buf"
    by (cases buf) simp_all
  ultimately show ?thesis using True assms ne
    by (simp add: puthead_def spec_header_def)
next
  case False
  then have big: "\<not> unat sz \<le> 55" by (simp add: word_less_nat_alt)
  then have nz: "sz \<noteq> 0" by auto
  let ?be = "big_endian (unat sz)"
  have len: "length ?be \<le> 8" using unsigned_less [of sz] by (intro spec_header_length_le) simp
  have "putint (drop 1 buf) sz = Returns (?be @ drop (length ?be) (drop 1 buf), length ?be)"
    using assms by (intro putint_be nz) simp
  moreover have "(take 1 buf @ ?be @ drop (length ?be) (drop 1 buf))[0 := largetag + of_nat (length ?be)]
      = (largetag + of_nat (length ?be)) # ?be @ drop (Suc (length ?be)) buf"
    using assms by (cases buf) simp_all
  moreover have "buf \<noteq> []" using assms by auto
  ultimately show ?thesis using False big assms
    by (simp add: puthead_def spec_header_def)
qed


theorem puthead_writes_spec_header_witness:
  "9 \<le> length (replicate 9 (0 :: byte)) \<and>
   puthead (replicate 9 0) 0x80 0xB7 1024 = Returns ([0xB9, 0x04, 0x00, 0, 0, 0, 0, 0, 0], 3)"
proof -
  have h: "9 \<le> length (replicate 9 (0 :: byte))" by simp
  have s: "spec_header 0x80 0xB7 (unat (1024 :: uint64)) = [0xB9, 0x04, 0x00]"
    by (simp add: spec_header_def big_endian.simps)
  show ?thesis
    using puthead_writes_spec_header [OF h, of "0x80" "0xB7" 1024] h unfolding s
    by (simp add: numeral_eq_Suc)
qed

subsection \<open>Key encodings\<close>

declare decodeNibbles_loop.simps [simp del] hexToCompactInPlace_loop.simps [simp del]

lemma nibble_take: "(a::byte) < 16 \<Longrightarrow> take_bit 4 a = a"
  using less_mask_eq [of a 4] by (simp add: take_bit_eq_mask)

lemma nibble_drop: "(a::byte) < 16 \<Longrightarrow> drop_bit 4 a = 0"
  using nibble_take [of a] by (simp add: take_bit_eq_self_iff_drop_bit_eq_0)

lemma drop_push4: "drop_bit 4 (push_bit 4 a) = take_bit 4 (a::byte)"
  by (rule bit_word_eqI) (auto simp: bit_simps)

lemma nib_div: "a < 16 \<Longrightarrow> b < 16 \<Longrightarrow> (push_bit 4 a OR b) div 16 = (a::byte)"
proof -
  assume a: "a < 16" and b: "b < 16"
  have "(push_bit 4 a OR b) div 16 = drop_bit 4 (push_bit 4 a OR b)"
    by (simp add: drop_bit_eq_div)
  also have "\<dots> = a"
    by (simp only: drop_bit_or drop_push4 nibble_take [OF a] nibble_drop [OF b]) simp
  finally show ?thesis .
qed

lemma nib_mod: "b < 16 \<Longrightarrow> (push_bit 4 a OR b) mod 16 = (b::byte)"
proof -
  assume b: "b < 16"
  have "(push_bit 4 a OR b) mod 16 = take_bit 4 (push_bit 4 a OR b)"
    by (simp add: take_bit_eq_mod)
  also have "\<dots> = b"
    by (simp only: take_bit_or take_bit_push_bit nibble_take [OF b]) simp
  finally show ?thesis .
qed

lemma flag_odd_div: "x < 16 \<Longrightarrow> (16 OR x) div 16 = (1::byte)"
  using nib_div [of 1 x] by simp

lemma flag_odd_mod: "x < 16 \<Longrightarrow> (16 OR x) mod 16 = (x::byte)"
  using nib_mod [of x 1] by simp

lemma flag_leaf_odd_div: "x < 16 \<Longrightarrow> (48 OR x) div 16 = (3::byte)"
  using nib_div [of 3 x] by simp

lemma flag_leaf_odd_mod: "x < 16 \<Longrightarrow> (48 OR x) mod 16 = (x::byte)"
  using nib_mod [of x 3] by simp

lemma decodeNibbles_loop_pack:
  "even (length nibbles - ni) \<Longrightarrow> ni \<le> length nibbles \<Longrightarrow>
   bi + (length nibbles - ni) div 2 \<le> length bytes \<Longrightarrow>
   decodeNibbles_loop nibbles bytes bi ni =
     Returns (take bi bytes @ pack (drop ni nibbles) @ drop (bi + (length nibbles - ni) div 2) bytes)"
proof (induction nibbles bytes bi ni rule: decodeNibbles_loop.induct)
  case (1 nibbles bytes bi ni)
  show ?case
  proof (cases "ni < length nibbles")
    case False
    then show ?thesis using "1.prems" by (subst decodeNibbles_loop.simps) simp
  next
    case True
    have two: "ni + 1 < length nibbles"
    proof (rule ccontr)
      assume "\<not> ni + 1 < length nibbles"
      then have "length nibbles - ni = 1" using True by simp
      then show False using "1.prems"(1) by simp
    qed
    then have bi: "bi < length bytes" using "1.prems"(3) by auto
    let ?v = "push_bit 4 (nibbles ! ni) OR nibbles ! (ni + 1)"
    have d: "drop ni nibbles = nibbles ! ni # nibbles ! Suc ni # drop (Suc (Suc ni)) nibbles"
      using two by (simp add: Cons_nth_drop_Suc)
    have h: "(length nibbles - ni) div 2 = Suc ((length nibbles - Suc (Suc ni)) div 2)"
      using two by (auto simp: Suc_diff_Suc)
    have ih: "decodeNibbles_loop nibbles (bytes[bi := ?v]) (bi + 1) (ni + 2) =
       Returns (take (bi + 1) (bytes[bi := ?v]) @ pack (drop (ni + 2) nibbles)
                @ drop (bi + 1 + (length nibbles - (ni + 2)) div 2) (bytes[bi := ?v]))"
      using True two bi "1.prems" h by (intro "1.IH") auto
    have t: "take (Suc bi) (bytes[bi := ?v]) = take bi bytes @ [?v]"
      using bi by (simp add: take_Suc_conv_app_nth)
    show ?thesis
      using True two bi ih t d h
      by (subst decodeNibbles_loop.simps) simp
  qed
qed

lemma decodeNibbles_pack:
  "even (length xs) \<Longrightarrow> length bytes = length xs div 2 \<Longrightarrow> decodeNibbles xs bytes = Returns (pack xs)"
  unfolding decodeNibbles_def using decodeNibbles_loop_pack [of xs 0 0 bytes] by simp

lemma length_pack: "length (pack xs) = length xs div 2"
  by (induction xs rule: pack.induct) simp_all

lemma hexToCompact_even:
  assumes "\<not> hasTerm h" "even (length h)"
  shows "hexToCompact h = Returns (0 # pack h)"
  using assms decodeNibbles_pack [of h "replicate (length h div 2) 0"]
  by (simp add: hexToCompact_def and_one_eq)

lemma hexToCompact_odd:
  assumes "\<not> hasTerm (x # xs)" "even (length xs)"
  shows "hexToCompact (x # xs) = Returns ((16 OR x) # pack xs)"
proof -
  have "Suc (length xs) mod 2 = Suc 0" using assms(2) by presburger
  then show ?thesis
    using assms decodeNibbles_pack [of xs "replicate (length xs div 2) 0"]
    by (simp add: hexToCompact_def and_one_eq Let_def)
qed

lemma hexToCompact_term_even:
  assumes "even (length h)"
  shows "hexToCompact (h @ [16]) = Returns (32 # pack h)"
  using assms decodeNibbles_pack [of h "replicate (length h div 2) 0"]
  by (simp add: hexToCompact_def and_one_eq hasTerm_def)

lemma hexToCompact_term_odd:
  assumes "even (length xs)"
  shows "hexToCompact (x # xs @ [16]) = Returns ((48 OR x) # pack xs)"
proof -
  have "Suc (length xs) mod 2 = Suc 0" using assms by presburger
  then show ?thesis
    using assms decodeNibbles_pack [of xs "replicate (length xs div 2) 0"]
    by (simp add: hexToCompact_def and_one_eq hasTerm_def nth_append Let_def)
qed

lemma unpack_pack:
  "even (length xs) \<Longrightarrow> \<forall>x \<in> set xs. x < 16 \<Longrightarrow>
   concat (map (\<lambda>b. [b div 16, b mod 16]) (pack xs)) = xs"
  by (induction xs rule: pack.induct) (simp_all add: nib_div nib_mod)


lemma keybytesToHex_Cons: "keybytesToHex (f # c) = f div 16 # f mod 16 # keybytesToHex c"
  by (simp add: keybytesToHex_def)

lemma compactToHex_pack:
  assumes "even (length xs)" "\<forall>x \<in> set xs. x < 16"
  shows "compactToHex (0 # pack xs) = xs"
    and "x0 < 16 \<Longrightarrow> compactToHex ((16 OR x0) # pack xs) = x0 # xs"
    and "compactToHex (32 # pack xs) = xs @ [16]"
    and "x0 < 16 \<Longrightarrow> compactToHex ((48 OR x0) # pack xs) = x0 # xs @ [16]"
  using assms
  by (simp_all add: compactToHex_def keybytesToHex_Cons keybytesToHex_def unpack_pack
      flag_odd_div flag_odd_mod flag_leaf_odd_div flag_leaf_odd_mod Let_def)

lemma valid_hex_cases:
  assumes "valid_hex h"
  obtains (plain) "\<not> hasTerm h" "\<forall>x \<in> set h. x < 16"
        | (leaf) h' where "h = h' @ [16]" "\<forall>x \<in> set h'. x < 16"
proof (cases "hasTerm h")
  case True
  then have ne: "h \<noteq> []" and "last h = 16" by (auto simp: hasTerm_def last_conv_nth)
  then have "h = butlast h @ [16]" by (metis append_butlast_last_id)
  moreover have "\<forall>x \<in> set (butlast h). x < 16" using assms by (simp add: valid_hex_def)
  ultimately show ?thesis by (rule leaf)
next
  case False
  have "\<forall>x \<in> set h. x < 16"
  proof (cases "h = []")
    case True
    then show ?thesis by simp
  next
    case ne: False
    then have "last h \<noteq> 16" using False by (auto simp: hasTerm_def last_conv_nth)
    moreover have "last h \<le> 16" using assms ne by (simp add: valid_hex_def)
    ultimately have "last h < 16" by simp
    moreover have "\<forall>x \<in> set (butlast h). x < 16" using assms by (simp add: valid_hex_def)
    moreover have "h = butlast h @ [last h]" using ne by simp
    ultimately show ?thesis by (metis Un_iff empty_iff empty_set insert_iff list.simps(15) set_append)
  qed
  with False show ?thesis by (rule plain)
qed

text \<open>
  C4. For every valid hex key \<open>h\<close> (nibbles below 16, with an optional terminator 16
  as the last byte), \<open>hexToCompact\<close> returns a compact key and \<open>compactToHex\<close>
  of it is \<open>h\<close> again.
\<close>

theorem compactToHex_hexToCompact:
  assumes "valid_hex h"
  shows "\<exists>c. hexToCompact h = Returns c \<and> compactToHex c = h"
  using assms
proof (cases rule: valid_hex_cases)
  case plain
  show ?thesis
  proof (cases "even (length h)")
    case True
    then show ?thesis using plain by (simp add: hexToCompact_even compactToHex_pack)
  next
    case False
    then obtain x xs where h: "h = x # xs" by (cases h) auto
    then have "even (length xs)" using False by simp
    then show ?thesis using plain h by (simp add: hexToCompact_odd compactToHex_pack)
  qed
next
  case (leaf h')
  show ?thesis
  proof (cases "even (length h')")
    case True
    then show ?thesis using leaf by (simp add: hexToCompact_term_even compactToHex_pack)
  next
    case False
    then obtain x xs where h: "h' = x # xs" by (cases h') auto
    then have "even (length xs)" using False by simp
    then show ?thesis using leaf h by (simp add: hexToCompact_term_odd compactToHex_pack)
  qed
qed

theorem compactToHex_hexToCompact_witness:
  "valid_hex [1, 2, 3, 16] \<and>
   (\<exists>c. hexToCompact [1, 2, 3, 16] = Returns c \<and> compactToHex c = [1, 2, 3, 16])"
  using compactToHex_hexToCompact [of "[1, 2, 3, 16]"] by (simp add: valid_hex_def)

lemma inplace_loop_pack:
  "even (hexLen - ni) \<Longrightarrow> ni \<le> hexLen \<Longrightarrow> hexLen \<le> length hex \<Longrightarrow> bi \<le> ni + 1 \<Longrightarrow>
   \<exists>r. hexToCompactInPlace_loop hex hexLen bi ni = Returns r \<and> length r = length hex \<and>
       take (bi + (hexLen - ni) div 2) r = take bi hex @ pack (take (hexLen - ni) (drop ni hex))"
proof (induction hex hexLen bi ni rule: hexToCompactInPlace_loop.induct)
  case (1 hex hexLen bi ni)
  show ?case
  proof (cases "ni < hexLen")
    case False
    then show ?thesis using "1.prems" by (subst hexToCompactInPlace_loop.simps) simp
  next
    case True
    have two: "ni + 1 < hexLen"
    proof (rule ccontr)
      assume "\<not> ni + 1 < hexLen"
      then have "hexLen - ni = 1" using True by simp
      then show False using "1.prems"(1) by simp
    qed
    then have two': "ni + 1 < length hex" and bi: "bi < length hex"
      using "1.prems"(3,4) by auto
    let ?v = "push_bit 4 (hex ! ni) OR hex ! (ni + 1)"
    let ?hex = "hex[bi := ?v]"
    have "\<exists>r. hexToCompactInPlace_loop ?hex hexLen (bi + 1) (ni + 2) = Returns r \<and>
        length r = length ?hex \<and>
        take (bi + 1 + (hexLen - (ni + 2)) div 2) r =
          take (bi + 1) ?hex @ pack (take (hexLen - (ni + 2)) (drop (ni + 2) ?hex))"
      using True two two' bi "1.prems" by (intro "1.IH") auto
    then obtain r where r: "hexToCompactInPlace_loop ?hex hexLen (bi + 1) (ni + 2) = Returns r"
      and lr: "length r = length hex"
      and tr: "take (bi + 1 + (hexLen - (ni + 2)) div 2) r =
          take (bi + 1) ?hex @ pack (take (hexLen - (ni + 2)) (drop (ni + 2) ?hex))"
      by auto
    have t: "take (bi + 1) ?hex = take bi hex @ [?v]"
      using bi by (simp add: take_Suc_conv_app_nth)
    have dd: "drop (ni + 2) ?hex = drop (ni + 2) hex"
      using "1.prems"(4) by simp
    have d: "take (hexLen - ni) (drop ni hex)
        = hex ! ni # hex ! (ni + 1) # take (hexLen - (ni + 2)) (drop (ni + 2) hex)"
    proof -
      have "drop ni hex = hex ! ni # hex ! (ni + 1) # drop (ni + 2) hex"
        using two' by (simp add: Cons_nth_drop_Suc)
      moreover have "hexLen - ni = Suc (Suc (hexLen - (ni + 2)))" using two by simp
      ultimately show ?thesis by simp
    qed
    have h: "(hexLen - ni) div 2 = Suc ((hexLen - (ni + 2)) div 2)"
      using two by (auto simp: Suc_diff_Suc)
    have "take (bi + (hexLen - ni) div 2) r = take bi hex @ pack (take (hexLen - ni) (drop ni hex))"
      using tr unfolding t dd d h by simp
    moreover have "hexToCompactInPlace_loop hex hexLen bi ni = Returns r"
      using True two' bi r by (subst hexToCompactInPlace_loop.simps) simp
    ultimately show ?thesis using lr by simp
  qed
qed

lemma inplace_result:
  assumes "even (hexLen - ni)" "ni \<le> hexLen" "hexLen \<le> length hex" "ni \<le> 1" "hex \<noteq> []"
  shows "\<exists>r. hexToCompactInPlace_loop hex hexLen 1 ni = Returns r \<and> 0 < length r \<and>
     take ((hexLen - ni) div 2 + 1) (r[0 := f]) = f # pack (take (hexLen - ni) (drop ni hex))"
proof -
  obtain r where r: "hexToCompactInPlace_loop hex hexLen 1 ni = Returns r"
    and lr: "length r = length hex"
    and tr: "take (1 + (hexLen - ni) div 2) r = take 1 hex @ pack (take (hexLen - ni) (drop ni hex))"
    using inplace_loop_pack [OF assms(1,2,3), of 1] by auto
  have "take ((hexLen - ni) div 2 + 1) (r[0 := f]) = (take (1 + (hexLen - ni) div 2) r)[0 := f]"
    by (simp add: take_update_swap)
  also have "\<dots> = f # pack (take (hexLen - ni) (drop ni hex))"
    unfolding tr using assms(5) by (cases hex) simp_all
  finally show ?thesis using r lr assms(5) by auto
qed

lemmas hexToCompactInPlace_hasTerm = hexToCompactInPlace_def [folded hasTerm_def]

text \<open>
  C5, as amended. For every non-empty slice \<open>h\<close>, valid hex key or not,
  \<open>hexToCompactInPlace\<close> returns a length \<open>n\<close> and leaves in the first \<open>n\<close> bytes
  of the slice exactly what \<open>hexToCompact\<close> returns for \<open>h\<close>.
\<close>

theorem hexToCompactInPlace_equiv:
  assumes "h \<noteq> []"
  shows "\<exists>buf n. hexToCompactInPlace h = Returns (buf, n) \<and> hexToCompact h = Returns (take n buf)"
proof (cases "hasTerm h")
  case False
  then have nt: "\<not> (0 < length h \<and> h ! (length h - 1) = 16)" by (simp add: hasTerm_def)
  show ?thesis
  proof (cases "even (length h)")
    case True
    obtain r where "hexToCompactInPlace_loop h (length h) 1 0 = Returns r" "0 < length r"
      "take ((length h - 0) div 2 + 1) (r[0 := 0]) = 0 # pack (take (length h - 0) (drop 0 h))"
      using inplace_result [of "length h" 0 h 0] True assms by auto
    then show ?thesis using True False
      by (simp add: hexToCompactInPlace_hasTerm hexToCompact_even and_one_eq)
  next
    case odd: False
    then obtain x xs where h: "h = x # xs" by (cases h) auto
    then have ev: "even (length xs)" using odd by simp
    then have m: "Suc (length xs) mod 2 = Suc 0" by presburger
    obtain r where "hexToCompactInPlace_loop h (length h) 1 1 = Returns r" "0 < length r"
      "take ((length h - 1) div 2 + 1) (r[0 := 16 OR x]) = (16 OR x) # pack (take (length h - 1) (drop 1 h))"
      using inplace_result [of "length h" 1 h "16 OR x"] ev h by auto
    then show ?thesis using ev False m unfolding h
      by (simp add: hexToCompactInPlace_hasTerm hexToCompact_odd and_one_eq)
  qed
next
  case True
  then have t: "0 < length h \<and> h ! (length h - 1) = 16" by (simp add: hasTerm_def)
  then have "h = butlast h @ [16]" using assms by (metis append_butlast_last_id last_conv_nth)
  then obtain h' where h: "h = h' @ [16]" ..
  show ?thesis
  proof (cases "even (length h')")
    case True
    obtain r where "hexToCompactInPlace_loop h (length h') 1 0 = Returns r" "0 < length r"
      "take ((length h' - 0) div 2 + 1) (r[0 := 32]) = 32 # pack (take (length h' - 0) (drop 0 h))"
      using inplace_result [of "length h'" 0 h 32] True h by auto
    moreover have "hasTerm (h' @ [16])" by (simp add: hasTerm_def)
    ultimately show ?thesis using True unfolding h
      by (simp add: hexToCompactInPlace_hasTerm hexToCompact_term_even and_one_eq)
  next
    case odd: False
    then obtain x xs where h': "h' = x # xs" by (cases h') auto
    then have ev: "even (length xs)" using odd by simp
    then have m: "Suc (length xs) mod 2 = Suc 0" by presburger
    obtain r where "hexToCompactInPlace_loop h (length h') 1 1 = Returns r" "0 < length r"
      "take ((length h' - 1) div 2 + 1) (r[0 := 48 OR x]) = (48 OR x) # pack (take (length h' - 1) (drop 1 h))"
      using inplace_result [of "length h'" 1 h "48 OR x"] ev h h' by auto
    moreover have "hasTerm (x # xs @ [16])" by (simp add: hasTerm_def nth_append)
    ultimately show ?thesis using ev m unfolding h h'
      by (simp add: hexToCompactInPlace_hasTerm hexToCompact_term_odd and_one_eq)
  qed
qed

theorem hexToCompactInPlace_equiv_witness:
  "[1, 2, 3, 16] \<noteq> ([] :: byte list) \<and>
   (\<exists>buf n. hexToCompactInPlace [1, 2, 3, 16] = Returns (buf, n) \<and>
      hexToCompact [1, 2, 3, 16] = Returns (take n buf))"
  using hexToCompactInPlace_equiv [of "[1, 2, 3, 16]"] by simp

text \<open>
  C5 as stated fails on the empty key: \<open>hexToCompact\<close> returns the one flag byte,
  and \<open>hexToCompactInPlace\<close> panics when it stores the flag byte at index 0 of the
  empty slice.
\<close>

theorem hexToCompactInPlace_empty_counterexample:
  "hexToCompactInPlace [] = Panics ''index out of range'' \<and> hexToCompact [] = Returns [0]"
  by (simp add: hexToCompactInPlace_def hexToCompact_def hasTerm_def decodeNibbles_def
      hexToCompactInPlace_loop.simps decodeNibbles_loop.simps)

subsection \<open>Constructing a trie, the empty root\<close>

text \<open>
  C9, as amended. With a database and a root hash that is neither the zero hash nor the
  empty root, \<open>New\<close> reads the node store at once: the root of the trie it returns
  is the node stored under the root hash, and when the store has no such node
  \<open>New\<close> returns no trie and a \<open>MissingNodeError\<close> with the owner, the root hash
  and the empty path.
\<close>

theorem New_resolves_root:
  assumes "rt \<noteq> zeroHash" and "rt \<noteq> emptyRoot"
  shows "New ownr rt (Some d) =
    (case d rt of
       Some nd \<Rightarrow> Returns (Some \<lparr>db = Some d, root = nd, owner = ownr, unhashed = 0\<rparr>, None)
     | None \<Rightarrow> Returns (None, Some (MissingNodeError ownr rt [])))"
  using assms by (simp add: New_def newTrie_def resolveHash_def split: option.split)

lemma ones_not_empty: "replicate 32 (1 :: byte) \<noteq> zeroHash" "replicate 32 (1 :: byte) \<noteq> emptyRoot"
proof -
  show "replicate 32 (1 :: byte) \<noteq> zeroHash" by (simp add: zeroHash_def)
  show "replicate 32 (1 :: byte) \<noteq> emptyRoot"
  proof
    assume "replicate 32 (1 :: byte) = emptyRoot"
    then have "hd (replicate 32 (1 :: byte)) = hd emptyRoot" by simp
    then show False by (simp add: emptyRoot_def)
  qed
qed

theorem New_resolves_root_witness:
  "replicate 32 (1 :: byte) \<noteq> zeroHash \<and> replicate 32 (1 :: byte) \<noteq> emptyRoot \<and>
   New zeroHash (replicate 32 1) (Some (map_of [])) =
     Returns (None, Some (MissingNodeError zeroHash (replicate 32 1) []))"
  using New_resolves_root [OF ones_not_empty, of zeroHash "map_of []"] ones_not_empty by simp

text \<open>
  C9 as stated fails: with the leaf \<open>key \<rightarrow> v\<close> stored under the root hash, the root
  of the new trie is that leaf, not a hash node; and on an empty store \<open>New\<close> returns
  a \<open>MissingNodeError\<close>, so the store has been read.
\<close>

theorem New_lazy_root_counterexample:
  "New zeroHash (replicate 32 1)
      (Some (map_of [(replicate 32 1,
         ShortNode [6, 11, 6, 5, 7, 9, 16] (ValueNode [118])
           \<lparr>flag_hash = Some (replicate 32 1), flag_dirty = False\<rparr>)]))
    = Returns (Some \<lparr>db = Some (map_of [(replicate 32 1,
         ShortNode [6, 11, 6, 5, 7, 9, 16] (ValueNode [118])
           \<lparr>flag_hash = Some (replicate 32 1), flag_dirty = False\<rparr>)]),
        root = ShortNode [6, 11, 6, 5, 7, 9, 16] (ValueNode [118])
           \<lparr>flag_hash = Some (replicate 32 1), flag_dirty = False\<rparr>,
        owner = zeroHash, unhashed = 0\<rparr>, None)
   \<and> ShortNode [6, 11, 6, 5, 7, 9, 16] (ValueNode [118])
           \<lparr>flag_hash = Some (replicate 32 1), flag_dirty = False\<rparr> \<noteq> HashNode (replicate 32 1)
   \<and> New zeroHash (replicate 32 1) (Some (map_of []))
    = Returns (None, Some (MissingNodeError zeroHash (replicate 32 1) []))"
  using ones_not_empty by (simp add: New_def newTrie_def resolveHash_def)

lemma BytesToHash_32: "length b = 32 \<Longrightarrow> BytesToHash b = b"
  by (simp add: BytesToHash_def)

text \<open>
  C3. \<open>Hash\<close> on a trie whose root is nil returns the 32 bytes
  \<open>56e81f17 1bcc55a6 ff8345e6 92c0f86e 5b48e01b 996cadc0 01622fb5 e363b421\<close>, whatever
  the database, the owner and the counter of the trie are, and leaves the trie as it is.
  No hash is computed on this path: the constant is \<open>emptyRoot\<close> of the source.
\<close>

theorem Hash_empty_trie:
  "Hash keccak \<lparr>db = d, root = Nil, owner = ownr, unhashed = u\<rparr> =
     Returns ([0x56, 0xe8, 0x1f, 0x17, 0x1b, 0xcc, 0x55, 0xa6, 0xff, 0x83, 0x45, 0xe6, 0x92, 0xc0,
               0xf8, 0x6e, 0x5b, 0x48, 0xe0, 0x1b, 0x99, 0x6c, 0xad, 0xc0, 0x01, 0x62, 0x2f, 0xb5,
               0xe3, 0x63, 0xb4, 0x21],
              \<lparr>db = d, root = Nil, owner = ownr, unhashed = u\<rparr>)"
proof -
  have "length emptyRoot = 32" by (simp add: emptyRoot_def)
  then have "BytesToHash emptyRoot = emptyRoot" by (rule BytesToHash_32)
  then show ?thesis by (simp add: Hash_def hashRoot_def) (simp add: emptyRoot_def)
qed

subsection \<open>Embedded and hashed nodes\<close>


subsection \<open>Get after insert\<close>
















subsection \<open>Structural invariants\<close>




lemma nibbles_append [simp]: "is_nibbles (a @ b) \<longleftrightarrow> is_nibbles a \<and> is_nibbles b"
  by (auto simp: is_nibbles_def)

lemma nibbles_Cons [simp]: "is_nibbles (x # b) \<longleftrightarrow> x < 16 \<and> is_nibbles b"
  by (auto simp: is_nibbles_def)

lemma nibbles_Nil [simp]: "is_nibbles []"
  by (simp add: is_nibbles_def)




lemma nibbles_no_term: "is_nibbles k \<Longrightarrow> 16 \<notin> set k"
  by (auto simp: is_nibbles_def)






lemma byte_slot: "(x :: byte) \<le> 16 \<Longrightarrow> unat x < 17"
  by (simp add: word_le_nat_alt)

lemma byte_slot16: "unat (x :: byte) = 16 \<longleftrightarrow> x = 16"
  by (simp add: word_unat_eq_iff)


lemma finite_used [simp]: "finite (used cs)"
  unfolding used_def by simp














lemma used_Nil [simp]: "used [] = {}"
  by (simp add: used_def)

















lemma store_unhashed [simp]: "store (t\<lparr>unhashed := u\<rparr>) = store t"
  by (simp add: store_def)

lemma store_root [simp]: "store (t\<lparr>root := n\<rparr>) = store t"
  by (simp add: store_def)



end
